theory Spec2Isabelle
  imports Complex_Main "HOL-Library.Log_Nat"
begin

section \<open>The smart parking system: data model\<close>

text \<open>
  The class \<open>SmartParkingSystem\<close> keeps a dictionary of slots, a pricing dictionary and
  running counters. Every method that reads the wall clock (\<open>datetime.datetime.now()\<close>)
  takes the reading as an argument \<open>now\<close>. A \<open>datetime\<close> is its number of microseconds,
  the resolution of Python's \<open>datetime\<close>; a difference of two of them is a \<open>timedelta\<close>.
  A Python \<open>float\<close> is an IEEE double; it is modelled by the rational number it denotes,
  and the float operations that compute durations, charges and the revenue round their
  exact result to the nearest double (\<open>fl\<close> below).
\<close>

type_synonym datetime = int

type_synonym timedelta = int

datatype py_error = KeyError string | TypeError | ZeroDivisionError

record rates =
  base :: int
  hourly :: int

record vehicle =
  vehicle_no :: string
  vtype :: string
  entry_time :: datetime

text \<open>
  The report of \<open>daily_report\<close> is a formatted string; the model keeps the values that the
  format string renders, in the order of the lines of the report.
\<close>

record report =
  report_date :: datetime
  report_vehicles :: int
  report_revenue :: rat
  report_avg :: rat
  report_peak :: int
  report_total_slots :: int

text \<open>
  A Python \<open>dict\<close> keeps its keys in insertion order, and \<open>find_free_slot\<close> depends on that
  order, so both dictionaries are association lists. A slot whose value is \<open>None\<close> is free.
\<close>

record parking_system =
  total_slots :: int
  parking_slots :: "(int \<times> vehicle option) list"
  revenue_today :: rat
  vehicles_today :: int
  daily_records :: "report list"
  pricing :: "(string \<times> rates) list"

text \<open>\<open>d[k] = v\<close>: an existing key keeps its place, a new key goes to the end.\<close>

fun dict_set :: "('k \<times> 'v) list \<Rightarrow> 'k \<Rightarrow> 'v \<Rightarrow> ('k \<times> 'v) list" where
  "dict_set [] k v = [(k, v)]"
| "dict_set ((k', v') # d) k v =
     (if k' = k then (k, v) # d else (k', v') # dict_set d k v)"

definition pricing_table :: "(string \<times> rates) list" where
  "pricing_table =
     [(''bike'', \<lparr>base = 10, hourly = 5\<rparr>),
      (''car'', \<lparr>base = 20, hourly = 10\<rparr>),
      (''ev'', \<lparr>base = 25, hourly = 12\<rparr>),
      (''heavy'', \<lparr>base = 50, hourly = 25\<rparr>)]"

text \<open>\<open>__init__\<close>: the slots are the keys \<open>range(1, total_slots + 1)\<close>, all free.\<close>

definition SmartParkingSystem :: "int \<Rightarrow> parking_system" where
  "SmartParkingSystem n =
     \<lparr>total_slots = n,
      parking_slots = map (\<lambda>i. (i, None)) [1..n],
      revenue_today = 0,
      vehicles_today = 0,
      daily_records = [],
      pricing = pricing_table\<rparr>"

section \<open>Operations\<close>

text \<open>\<open>find_free_slot\<close>: the first item, in dictionary order, whose value is \<open>None\<close>.\<close>

fun first_free :: "(int \<times> vehicle option) list \<Rightarrow> int option" where
  "first_free [] = None"
| "first_free ((slot, v) # items) = (if v = None then Some slot else first_free items)"

definition find_free_slot :: "parking_system \<Rightarrow> int option" where
  "find_free_slot s = first_free (parking_slots s)"

text \<open>
  \<open>vehicle_entry\<close> returns one of three messages. \<open>Invalid_vehicle_type\<close> stands for
  ``Error: Invalid vehicle type ...'', \<open>Parking_full\<close> for ``Parking Full! No slots
  available.'' and \<open>Parked\<close> for ``Vehicle ... parked in Slot ... at ...''.
\<close>

datatype entry_msg =
    Invalid_vehicle_type string
  | Parking_full
  | Parked string string int datetime

definition vehicle_entry ::
  "parking_system \<Rightarrow> string \<Rightarrow> string \<Rightarrow> datetime \<Rightarrow> entry_msg \<times> parking_system" where
  "vehicle_entry s vno vehicle_type now =
     (if map_of (pricing s) vehicle_type = None then (Invalid_vehicle_type vehicle_type, s)
      else case find_free_slot s of
          None \<Rightarrow> (Parking_full, s)
        | Some free_slot \<Rightarrow>
            (Parked vno vehicle_type free_slot now,
             s\<lparr>parking_slots :=
                  dict_set (parking_slots s) free_slot
                    (Some \<lparr>vehicle_no = vno, vtype = vehicle_type, entry_time = now\<rparr>),
               vehicles_today := vehicles_today s + 1\<rparr>))"

text \<open>
  Rounding to the nearest integer, a tie going to the even one.
\<close>

definition round_half_even :: "rat \<Rightarrow> int" where
  "round_half_even y =
     (let f = \<lfloor>y\<rfloor>; d = y - of_int f
      in if d < 1 / 2 then f
         else if 1 / 2 < d then f + 1
         else if even f then f else f + 1)"

text \<open>
  \<open>ilog2 x\<close> is the binary exponent of a nonzero \<open>x\<close>: the integer \<open>e\<close> with
  \<open>2 powi e \<le> \<bar>x\<bar>\<close> and \<open>\<bar>x\<bar> < 2 powi (e + 1)\<close>. \<open>fl x\<close> is the double nearest to \<open>x\<close>: the
  significand has 53 bits, so doubles with exponent \<open>e\<close> are \<open>2 powi (e - 52)\<close> apart, and a
  tie goes to the even significand. The exponent is not bounded: overflow to infinity and
  subnormal numbers are left out. The durations and amounts that arise from Python
  datetimes (years 1 to 9999) are far from both.
\<close>

definition ilog2 :: "rat \<Rightarrow> int" where
  "ilog2 x =
     (case quotient_of \<bar>x\<bar> of (p, q) \<Rightarrow>
        (let e = bitlen p - bitlen q in if 2 powi e \<le> \<bar>x\<bar> then e else e - 1))"

definition fl :: "rat \<Rightarrow> rat" where
  "fl x =
     (if x = 0 then 0
      else (let u = 2 powi (ilog2 x - 52) in of_int (round_half_even (x / u)) * u))"

text \<open>The float operations \<open>+\<close>, \<open>-\<close>, \<open>*\<close> and \<open>/\<close> (the divisor is never zero here).\<close>

definition fadd :: "rat \<Rightarrow> rat \<Rightarrow> rat" where
  "fadd a b = fl (a + b)"

definition fsub :: "rat \<Rightarrow> rat \<Rightarrow> rat" where
  "fsub a b = fl (a - b)"

definition fmul :: "rat \<Rightarrow> rat \<Rightarrow> rat" where
  "fmul a b = fl (a * b)"

definition fdiv :: "rat \<Rightarrow> rat \<Rightarrow> rat" where
  "fdiv a b = fl (a / b)"

text \<open>
  \<open>timedelta.total_seconds()\<close> divides the integer number of microseconds by \<open>10**6\<close>;
  the true division of two integers is correctly rounded. The duration in hours is that
  float divided by 3600.
\<close>

definition total_seconds :: "timedelta \<Rightarrow> rat" where
  "total_seconds td = fl (of_int td / 1000000)"

definition duration_hours :: "datetime \<Rightarrow> datetime \<Rightarrow> rat" where
  "duration_hours exit_time entry = fdiv (total_seconds (exit_time - entry)) 3600"

text \<open>
  \<open>round(x, 2)\<close> on a float: the exact value of \<open>x\<close> is rounded to a whole number of
  hundredths, a tie going to the even one, and the result is the double nearest to that
  decimal. On an \<open>int\<close> Python's \<open>round\<close> returns the \<open>int\<close> itself; for the base charges of
  the pricing dictionary \<open>round2\<close> does the same (\<open>round2_base\<close> below).
\<close>

definition round2 :: "rat \<Rightarrow> rat" where
  "round2 x = fl (of_int (round_half_even (x * 100)) / 100)"

text \<open>The amount before rounding, for the rates \<open>r\<close> and a duration of \<open>d\<close> hours.\<close>

definition charge_formula :: "rates \<Rightarrow> rat \<Rightarrow> rat" where
  "charge_formula r d =
     (if d \<le> 2 then of_int (base r)
      else fadd (of_int (base r)) (fmul (fsub d 2) (of_int (hourly r))))"

text \<open>
  \<open>calculate_charges\<close> returns a pair of the amount and the exit time; on a slot without a
  vehicle the pair is \<open>(0.0, None)\<close>. The lookup \<open>self.pricing[...]\<close> raises \<open>KeyError\<close> on
  a type that is not a key of the pricing dictionary.
\<close>

definition calculate_charges ::
  "parking_system \<Rightarrow> int \<Rightarrow> datetime \<Rightarrow> py_error + (rat \<times> datetime option)" where
  "calculate_charges s slot now =
     (case map_of (parking_slots s) slot of
        None \<Rightarrow> Inr (0, None)
      | Some None \<Rightarrow> Inr (0, None)
      | Some (Some vehicle_data) \<Rightarrow>
          (let exit_time = now;
               d = duration_hours exit_time (entry_time vehicle_data)
           in case map_of (pricing s) (vtype vehicle_data) of
                None \<Rightarrow> Inl (KeyError (vtype vehicle_data))
              | Some r \<Rightarrow>
                  (let charges =
                         (if d \<le> 2 then of_int (base r)
                          else fadd (of_int (base r)) (fmul (fsub d 2) (of_int (hourly r))))
                   in Inr (round2 charges, Some exit_time))))"

text \<open>
  \<open>vehicle_exit\<close> returns ``Slot ... is empty or invalid.'' (\<open>Slot_empty\<close>) or the receipt
  (\<open>Exiting\<close>: vehicle number, type, slot, entry time, exit time, duration, charges).
  Subtracting from an exit time that is \<open>None\<close> would raise \<open>TypeError\<close>.
\<close>

datatype exit_msg =
    Slot_empty int
  | Exiting string string int datetime datetime rat rat

definition vehicle_exit ::
  "parking_system \<Rightarrow> int \<Rightarrow> datetime \<Rightarrow> py_error + (exit_msg \<times> parking_system)" where
  "vehicle_exit s slot now =
     (case map_of (parking_slots s) slot of
        None \<Rightarrow> Inr (Slot_empty slot, s)
      | Some None \<Rightarrow> Inr (Slot_empty slot, s)
      | Some (Some vehicle_data) \<Rightarrow>
          (case calculate_charges s slot now of
             Inl e \<Rightarrow> Inl e
           | Inr (charges, None) \<Rightarrow> Inl TypeError
           | Inr (charges, Some exit_time) \<Rightarrow>
               Inr (Exiting (vehicle_no vehicle_data) (vtype vehicle_data) slot
                      (entry_time vehicle_data) exit_time
                      (duration_hours exit_time (entry_time vehicle_data)) charges,
                    s\<lparr>revenue_today := fadd (revenue_today s) charges,
                      parking_slots := dict_set (parking_slots s) slot None\<rparr>)))"

text \<open>
  \<open>a / b\<close> on numbers raises \<open>ZeroDivisionError\<close> when \<open>b\<close> is zero. The average of the
  report is kept as the quotient itself; the report shows it with two decimals.
\<close>

definition truediv :: "rat \<Rightarrow> int \<Rightarrow> py_error + rat" where
  "truediv a b = (if b = 0 then Inl ZeroDivisionError else Inr (a / of_int b))"

text \<open>\<open>sum(1 for v in self.parking_slots.values() if v is not None)\<close>\<close>

definition occupied_count :: "parking_system \<Rightarrow> int" where
  "occupied_count s =
     sum_list (map (\<lambda>v. 1) (filter (\<lambda>v. v \<noteq> None) (map snd (parking_slots s))))"

definition daily_report ::
  "parking_system \<Rightarrow> datetime \<Rightarrow> py_error + (report \<times> parking_system)" where
  "daily_report s now =
     (let vehicles = vehicles_today s
      in case (if vehicles \<noteq> 0 then truediv (revenue_today s) vehicles else Inr 0) of
           Inl e \<Rightarrow> Inl e
         | Inr avg \<Rightarrow>
             (let peak = occupied_count s;
                  rep = \<lparr>report_date = now,
                         report_vehicles = vehicles,
                         report_revenue = revenue_today s,
                         report_avg = avg,
                         report_peak = peak,
                         report_total_slots = total_slots s\<rparr>
              in Inr (rep, s\<lparr>daily_records := daily_records s @ [rep]\<rparr>)))"

text \<open>
  \<open>display_status\<close> only prints. The view holds the printed values; each row of an occupied
  slot reads the clock on its own, \<open>clock slot\<close> being the reading for that row.
\<close>

record status_view =
  status_total :: int
  status_occupied :: int
  status_free :: int
  status_revenue :: rat
  status_vehicles :: int
  status_rows :: "(int \<times> string \<times> string \<times> rat) list"

definition display_status :: "parking_system \<Rightarrow> (int \<Rightarrow> datetime) \<Rightarrow> status_view" where
  "display_status s clock =
     (let occupied = occupied_count s
      in \<lparr>status_total = total_slots s,
          status_occupied = occupied,
          status_free = total_slots s - occupied,
          status_revenue = revenue_today s,
          status_vehicles = vehicles_today s,
          status_rows =
            concat (map (\<lambda>(slot, data). case data of
                            None \<Rightarrow> []
                          | Some d \<Rightarrow> [(slot, vehicle_no d, vtype d,
                                       duration_hours (clock slot) (entry_time d))])
                        (parking_slots s))\<rparr>)"

section \<open>Sequences of operations\<close>

text \<open>
  The menu loop calls the methods one after the other on a single instance.
  \<open>save_report\<close> writes the string returned by \<open>daily_report\<close> to a file, so on the
  instance it acts as \<open>daily_report\<close> does. An exception ends the run.
\<close>

datatype op =
    Vehicle_entry string string datetime
  | Vehicle_exit int datetime
  | Calculate_charges int datetime
  | Display_status "int \<Rightarrow> datetime"
  | Daily_report datetime
  | Save_report datetime

datatype op_result =
    Entry_out entry_msg
  | Exit_out exit_msg
  | Charges_out rat "datetime option"
  | Status_out status_view
  | Report_out report

fun step :: "parking_system \<Rightarrow> op \<Rightarrow> py_error + (op_result \<times> parking_system)" where
  "step s (Vehicle_entry vno vt now) =
     (case vehicle_entry s vno vt now of (msg, s') \<Rightarrow> Inr (Entry_out msg, s'))"
| "step s (Vehicle_exit slot now) =
     (case vehicle_exit s slot now of Inl e \<Rightarrow> Inl e | Inr (msg, s') \<Rightarrow> Inr (Exit_out msg, s'))"
| "step s (Calculate_charges slot now) =
     (case calculate_charges s slot now of Inl e \<Rightarrow> Inl e | Inr (c, t) \<Rightarrow> Inr (Charges_out c t, s))"
| "step s (Display_status clock) = Inr (Status_out (display_status s clock), s)"
| "step s (Daily_report now) =
     (case daily_report s now of Inl e \<Rightarrow> Inl e | Inr (rep, s') \<Rightarrow> Inr (Report_out rep, s'))"
| "step s (Save_report now) =
     (case daily_report s now of Inl e \<Rightarrow> Inl e | Inr (rep, s') \<Rightarrow> Inr (Report_out rep, s'))"

fun run :: "parking_system \<Rightarrow> op list \<Rightarrow> py_error + (op_result list \<times> parking_system)" where
  "run s [] = Inr ([], s)"
| "run s (c # cs) =
     (case step s c of
        Inl e \<Rightarrow> Inl e
      | Inr (out, s') \<Rightarrow>
          (case run s' cs of Inl e \<Rightarrow> Inl e | Inr (outs, s'') \<Rightarrow> Inr (out # outs, s'')))"

text \<open>The charges of the receipts among the results, in order.\<close>

fun released_charges :: "op_result list \<Rightarrow> rat list" where
  "released_charges [] = []"
| "released_charges (Exit_out (Exiting vno vt slot entry exit_time d charges) # outs) =
     charges # released_charges outs"
| "released_charges (out # outs) = released_charges outs"

section \<open>The invariant of the instance\<close>

text \<open>
  The keys of the slot dictionary are \<open>1, ..., total_slots\<close> in this order, the pricing
  dictionary is the one of the constructor, the type of every parked vehicle is one of its
  keys, and the two counters are not negative.
\<close>

definition type_known :: "vehicle option \<Rightarrow> bool" where
  "type_known v = (case v of None \<Rightarrow> True | Some d \<Rightarrow> map_of pricing_table (vtype d) \<noteq> None)"

definition ledger_inv :: "parking_system \<Rightarrow> bool" where
  "ledger_inv s \<longleftrightarrow>
     map fst (parking_slots s) = [1..total_slots s]
     \<and> pricing s = pricing_table
     \<and> list_all type_known (map snd (parking_slots s))
     \<and> 0 \<le> revenue_today s
     \<and> 0 \<le> vehicles_today s"

section \<open>Example states\<close>

text \<open>A lot of two slots in which a bike was parked at time 0.\<close>

definition lot_with_bike :: parking_system where
  "lot_with_bike = snd (vehicle_entry (SmartParkingSystem 2) ''KA02'' ''bike'' 0)"

text \<open>The same lot after a car took the second slot at time 5: no slot is free.\<close>

definition full_lot :: parking_system where
  "full_lot = snd (vehicle_entry lot_with_bike ''KA03'' ''car'' 5)"

text \<open>The full lot after the bike left at time 9.\<close>

definition lot_after_exit :: parking_system where
  "lot_after_exit =
     (case vehicle_exit full_lot 1 9 of Inr (msg, s') \<Rightarrow> s' | Inl e \<Rightarrow> full_lot)"

text \<open>
  A lot of two slots with two heavy vehicles, after the first left 2 hours and 1.44
  seconds after its entry: the revenue is 50.01.
\<close>

definition heavy_lot :: parking_system where
  "heavy_lot =
     (case run (SmartParkingSystem 2)
             [Vehicle_entry ''KA10'' ''heavy'' 0, Vehicle_entry ''KA11'' ''heavy'' 3600000000,
              Vehicle_exit 1 7201440000]
      of Inr (outs, s) \<Rightarrow> s | Inl e \<Rightarrow> SmartParkingSystem 2)"

section \<open>Dictionaries and the free-slot scan\<close>

lemma map_of_dict_set: "map_of (dict_set d k v) = (map_of d)(k \<mapsto> v)"
  by (induction d) (auto simp: fun_eq_iff)

lemma keys_dict_set: "k \<in> fst ` set d \<Longrightarrow> map fst (dict_set d k v) = map fst d"
  by (induction d) force+

lemma values_dict_set:
  "list_all P (map snd d) \<Longrightarrow> P v \<Longrightarrow> list_all P (map snd (dict_set d k v))"
  by (induction d) auto

lemma first_free_None: "first_free d = None \<Longrightarrow> map_of d k \<noteq> Some None"
  by (induction d) (auto split: if_splits)

lemma first_free_mem: "first_free d = Some f \<Longrightarrow> (f, None) \<in> set d"
  by (induction d) (auto split: if_splits)

lemma first_free_Some:
  "distinct (map fst d) \<Longrightarrow> first_free d = Some f \<Longrightarrow> map_of d f = Some None"
  by (simp add: first_free_mem)

lemma first_free_least:
  "sorted_wrt (<) (map fst d) \<Longrightarrow> first_free d = Some f \<Longrightarrow> map_of d k = Some None \<Longrightarrow> f \<le> k"
proof (induction d)
  case Nil
  then show ?case by simp
next
  case (Cons p d)
  obtain k' v' where p: "p = (k', v')" by (cases p)
  show ?case
  proof (cases "v' = None")
    case True
    with Cons.prems p have "f = k'" by simp
    moreover have "k = k' \<or> k \<in> fst ` set d"
      using Cons.prems(3) p by (auto split: if_splits dest: map_of_SomeD intro: rev_image_eqI)
    ultimately show ?thesis using Cons.prems(1) p by auto
  next
    case False
    with Cons.prems p have "first_free d = Some f" "k \<noteq> k'" "map_of d k = Some None"
      by (auto split: if_splits)
    with Cons.IH Cons.prems(1) show ?thesis by simp
  qed
qed

lemma ledger_inv_init: "ledger_inv (SmartParkingSystem n)"
  by (simp add: ledger_inv_def SmartParkingSystem_def comp_def list_all_iff type_known_def)

lemma ledger_inv_keys:
  "ledger_inv s \<Longrightarrow> sorted_wrt (<) (map fst (parking_slots s)) \<and> distinct (map fst (parking_slots s))"
  by (simp add: ledger_inv_def)

lemma ledger_inv_dom:
  "ledger_inv s \<Longrightarrow> (map_of (parking_slots s) k \<noteq> None) = (1 \<le> k \<and> k \<le> total_slots s)"
proof -
  assume "ledger_inv s"
  then have "fst ` set (parking_slots s) = {1..total_slots s}"
    by (metis ledger_inv_def set_map set_upto)
  then show ?thesis
    by (metis atLeastAtMost_iff map_of_eq_None_iff)
qed

section \<open>Floats and rounding to two decimal places\<close>

lemma pos_bounds:
  fixes p :: int
  assumes "0 < p"
  shows "(2::rat) powi (bitlen p - 1) \<le> of_int p" and "of_int p < (2::rat) powi (bitlen p)"
proof -
  have b: "2 ^ nat (bitlen p - 1) \<le> p" "p < 2 ^ nat (bitlen p)"
    using bitlen_bounds [OF assms] by simp_all
  have ge1: "1 \<le> bitlen p" using assms by (auto simp: bitlen_alt_def)
  have "(of_int (2 ^ nat (bitlen p - 1)) :: rat) \<le> of_int p"
    using b(1) by (simp only: of_int_le_iff)
  then show "(2::rat) powi (bitlen p - 1) \<le> of_int p"
    using ge1 by (simp add: power_int_nonneg_exp)
  have "(of_int p :: rat) < of_int (2 ^ nat (bitlen p))"
    using b(2) by (simp only: of_int_less_iff)
  then show "of_int p < (2::rat) powi (bitlen p)"
    using ge1 by (simp add: power_int_nonneg_exp)
qed


lemma ilog2_bounds:
  assumes "x \<noteq> 0"
  shows "2 powi (ilog2 x) \<le> \<bar>x\<bar>" and "\<bar>x\<bar> < 2 powi (ilog2 x + 1)"
proof -
  obtain p q where pq: "quotient_of \<bar>x\<bar> = (p, q)" by (cases "quotient_of \<bar>x\<bar>")
  have q: "0 < q" using pq by (rule quotient_of_denom_pos)
  have x: "\<bar>x\<bar> = of_int p / of_int q" using pq by (rule quotient_of_div)
  have "0 < \<bar>x\<bar>" using assms by simp
  then have p: "0 < p" using q by (simp add: x zero_less_divide_iff)
  let ?e = "bitlen p - bitlen q"
  have qpos: "(0::rat) < of_int q" using q by simp
  have up: "\<bar>x\<bar> < 2 powi (?e + 1)"
  proof -
    have "of_int p < (2::rat) powi (bitlen p)" using pos_bounds(2) [OF p] .
    also have "\<dots> = 2 powi (?e + 1) * 2 powi (bitlen q - 1)"
      by (simp flip: power_int_add)
    also have "\<dots> \<le> 2 powi (?e + 1) * of_int q"
      using pos_bounds(1) [OF q] by (intro mult_left_mono) simp_all
    finally show ?thesis using qpos by (simp add: x pos_divide_less_eq)
  qed
  have low: "2 powi (?e - 1) < \<bar>x\<bar>"
  proof -
    have "(2::rat) powi (?e - 1) * of_int q < 2 powi (?e - 1) * 2 powi (bitlen q)"
      using pos_bounds(2) [OF q] by (intro mult_strict_left_mono) simp_all
    also have "\<dots> = 2 powi (bitlen p - 1)"
      by (simp flip: power_int_add)
    also have "\<dots> \<le> of_int p" using pos_bounds(1) [OF p] .
    finally show ?thesis using qpos by (simp add: x pos_less_divide_eq)
  qed
  show "2 powi (ilog2 x) \<le> \<bar>x\<bar>"
    using low by (simp add: ilog2_def pq Let_def)
  show "\<bar>x\<bar> < 2 powi (ilog2 x + 1)"
    using up by (auto simp: ilog2_def pq Let_def)
qed

lemma pow2_less_imp:
  assumes "(2::rat) powi a < 2 powi b"
  shows "a < b"
proof (rule ccontr)
  assume "\<not> a < b"
  then have "b \<le> a" by simp
  then have "(2::rat) powi b \<le> 2 powi a" by (intro power_int_increasing) simp_all
  with assms show False by simp
qed

lemma ilog2_unique:
  assumes "2 powi e \<le> \<bar>x\<bar>" and "\<bar>x\<bar> < 2 powi (e + 1)"
  shows "ilog2 x = e"
proof -
  have "(0::rat) < 2 powi e" by simp
  with assms(1) have "0 < \<bar>x\<bar>" by linarith
  then have nz: "x \<noteq> 0" by simp
  note b = ilog2_bounds [OF nz]
  have "(2::rat) powi e < 2 powi (ilog2 x + 1)" using assms(1) b(2) by simp
  then have 1: "e < ilog2 x + 1" by (rule pow2_less_imp)
  have "(2::rat) powi (ilog2 x) < 2 powi (e + 1)" using assms(2) b(1) by simp
  then have 2: "ilog2 x < e + 1" by (rule pow2_less_imp)
  from 1 2 show ?thesis by simp
qed

lemma fl_eval:
  assumes "2 powi e \<le> \<bar>x\<bar>" and "\<bar>x\<bar> < 2 powi (e + 1)"
  shows "fl x = of_int (round_half_even (x / 2 powi (e - 52))) * 2 powi (e - 52)"
proof -
  have "(0::rat) < 2 powi e" by simp
  with assms(1) have "0 < \<bar>x\<bar>" by linarith
  then have nz: "x \<noteq> 0" by simp
  show ?thesis using nz by (simp add: fl_def Let_def ilog2_unique [OF assms])
qed


lemma pow2_scale: "(2::rat) ^ k * 2 powi (e - int k) = 2 powi e"
  using power_int_add [of "2::rat" "int k" "e - int k"] by simp

lemma rhe_lower: "\<lfloor>y\<rfloor> \<le> round_half_even y"
  by (simp add: round_half_even_def Let_def)

lemma rhe_upper: "round_half_even y \<le> \<lfloor>y\<rfloor> + 1"
  by (simp add: round_half_even_def Let_def)

lemma rhe_of_int: "round_half_even (of_int n) = n"
  by (simp add: round_half_even_def Let_def)

lemma rhe_ge: "of_int n \<le> y \<Longrightarrow> n \<le> round_half_even y"
  using rhe_lower [of y] by (simp add: le_floor_iff [symmetric])

lemma rhe_le: "y \<le> of_int n \<Longrightarrow> round_half_even y \<le> n"
proof -
  assume a: "y \<le> of_int n"
  show ?thesis
  proof (cases "y = of_int n")
    case True
    then show ?thesis by (simp add: rhe_of_int)
  next
    case False
    with a have "y < of_int n" by simp
    then have "\<lfloor>y\<rfloor> < n" by (simp add: floor_less_iff)
    then show ?thesis using rhe_upper [of y] by simp
  qed
qed

lemma fl_nonneg: "0 \<le> x \<Longrightarrow> 0 \<le> fl x"
proof -
  assume "0 \<le> x"
  then have "(of_int 0 :: rat) \<le> x / 2 powi (ilog2 x - 52)" by simp
  then have "0 \<le> round_half_even (x / 2 powi (ilog2 x - 52))" by (rule rhe_ge)
  then show ?thesis by (simp add: fl_def Let_def)
qed

lemma scaled_bounds:
  assumes "x \<noteq> 0"
  shows "2 ^ 52 \<le> \<bar>x\<bar> / 2 powi (ilog2 x - 52)" and "\<bar>x\<bar> / 2 powi (ilog2 x - 52) < 2 ^ 53"
proof -
  let ?u = "(2::rat) powi (ilog2 x - 52)"
  have u: "0 < ?u" by simp
  have "2 ^ 52 * ?u = 2 powi (ilog2 x)"
    using power_int_add [of "2::rat" 52 "ilog2 x - 52"] by simp
  then show "2 ^ 52 \<le> \<bar>x\<bar> / ?u"
    using ilog2_bounds(1) [OF assms] u by (simp add: pos_le_divide_eq)
  have "2 ^ 53 * ?u = 2 powi (ilog2 x + 1)"
    using pow2_scale [of 53 "ilog2 x + 1"] by simp
  then show "\<bar>x\<bar> / ?u < 2 ^ 53"
    using ilog2_bounds(2) [OF assms] u by (simp add: pos_divide_less_eq)
qed

lemma fl_neg: "x < 0 \<Longrightarrow> fl x < 0"
proof -
  assume neg: "x < 0"
  let ?u = "(2::rat) powi (ilog2 x - 52)"
  have u: "0 < ?u" by simp
  have "2 ^ 52 \<le> - x / ?u" using scaled_bounds(1) [of x] neg by simp
  then have "x / ?u \<le> of_int (- (2 ^ 52))" by simp
  then have "round_half_even (x / ?u) \<le> - (2 ^ 52)" by (rule rhe_le)
  then have "round_half_even (x / ?u) < 0" by simp
  then have "of_int (round_half_even (x / ?u)) * ?u < 0"
    using u by (simp add: mult_less_0_iff)
  then show ?thesis using neg by (simp add: fl_def Let_def)
qed

lemma ilog2_mono:
  assumes "0 < r" and "r \<le> x"
  shows "ilog2 r \<le> ilog2 x"
proof -
  have r: "r \<noteq> 0" and x: "x \<noteq> 0" using assms by simp_all
  have "(2::rat) powi (ilog2 r) \<le> \<bar>r\<bar>" using ilog2_bounds(1) [OF r] .
  also have "\<dots> \<le> \<bar>x\<bar>" using assms by simp
  also have "\<dots> < 2 powi (ilog2 x + 1)" using ilog2_bounds(2) [OF x] .
  finally have "ilog2 r < ilog2 x + 1" by (rule pow2_less_imp)
  then show ?thesis by simp
qed

lemma fl_ge_repr:
  assumes repr: "fl r = r" and pos: "0 < r" and le: "r \<le> x"
  shows "r \<le> fl x"
proof -
  have r: "r \<noteq> 0" and x: "x \<noteq> 0" and xpos: "0 < x" using pos le by simp_all
  let ?ur = "(2::rat) powi (ilog2 r - 52)"
  let ?ux = "(2::rat) powi (ilog2 x - 52)"
  have ur: "0 < ?ur" and ux: "0 < ?ux" by simp_all
  have flx: "fl x = of_int (round_half_even (x / ?ux)) * ?ux"
    using x by (simp add: fl_def Let_def)
  consider "ilog2 x = ilog2 r" | "ilog2 r < ilog2 x"
    using ilog2_mono [OF pos le] by linarith
  then show ?thesis
  proof cases
    case 1
    let ?m = "round_half_even (r / ?ur)"
    have rm: "r = of_int ?m * ?ur"
      using repr r by (simp add: fl_def Let_def)
    then have "r / ?ur = of_int ?m" using ur by (simp add: field_simps)
    moreover have "r / ?ur \<le> x / ?ur" using le ur by (simp add: divide_right_mono)
    ultimately have "of_int ?m \<le> x / ?ux" using 1 by simp
    then have "?m \<le> round_half_even (x / ?ux)" by (rule rhe_ge)
    then have "of_int ?m * ?ux \<le> of_int (round_half_even (x / ?ux)) * ?ux"
      using ux by (simp add: mult_right_mono)
    then show ?thesis using rm flx 1 by simp
  next
    case 2
    have "of_int (2 ^ 52) \<le> x / ?ux"
      using scaled_bounds(1) [OF x] xpos by simp
    then have "2 ^ 52 \<le> round_half_even (x / ?ux)" by (rule rhe_ge)
    then have "(of_int (2 ^ 52) :: rat) \<le> of_int (round_half_even (x / ?ux))"
      by (simp only: of_int_le_iff)
    then have step: "of_int (2 ^ 52) * ?ux \<le> of_int (round_half_even (x / ?ux)) * ?ux"
      using ux by (intro mult_right_mono) simp_all
    have "2 powi (ilog2 x) = of_int (2 ^ 52) * ?ux"
      using pow2_scale [of 52 "ilog2 x"] by simp
    also note step
    also have "of_int (round_half_even (x / ?ux)) * ?ux = fl x" by (simp only: flx)
    finally have a: "2 powi (ilog2 x) \<le> fl x" .
    have "r < 2 powi (ilog2 r + 1)" using ilog2_bounds(2) [OF r] pos by simp
    also have "\<dots> \<le> 2 powi (ilog2 x)"
      using 2 by (intro power_int_increasing) simp_all
    finally show ?thesis using a by simp
  qed
qed

lemma fl_idem:
  assumes "0 < x"
  shows "fl (fl x) = fl x"
proof -
  have x: "x \<noteq> 0" using assms by simp
  let ?e = "ilog2 x"
  let ?u = "(2::rat) powi (?e - 52)"
  let ?n = "round_half_even (x / ?u)"
  have u: "0 < ?u" by simp
  have flx: "fl x = of_int ?n * ?u" using x by (simp add: fl_def Let_def)
  have lo: "of_int (2 ^ 52) \<le> x / ?u" and hi: "x / ?u \<le> of_int (2 ^ 53)"
    using scaled_bounds [OF x] assms by simp_all
  have n_lo: "2 ^ 52 \<le> ?n" using lo by (rule rhe_ge)
  have n_hi: "?n \<le> 2 ^ 53" using hi by (rule rhe_le)
  have p52: "2 ^ 52 * ?u = 2 powi ?e"
    using power_int_add [of "2::rat" 52 "?e - 52"] by simp
  have p53: "2 ^ 53 * ?u = 2 powi (?e + 1)"
    using pow2_scale [of 53 "?e + 1"] by simp
  show ?thesis
  proof (cases "?n = 2 ^ 53")
    case True
    then have y: "fl x = 2 powi (?e + 1)" using flx p53 by simp
    have "fl (2 powi (?e + 1)) =
            of_int (round_half_even (2 powi (?e + 1) / 2 powi (?e + 1 - 52))) * 2 powi (?e + 1 - 52)"
      by (rule fl_eval) (simp_all add: power_int_strict_increasing)
    moreover have "(2::rat) powi (?e + 1) / 2 powi (?e + 1 - 52) = of_int (2 ^ 52)"
      using power_int_diff [of "2::rat" "?e + 1" "?e + 1 - 52"] by simp
    moreover have "of_int (2 ^ 52) * (2::rat) powi (?e + 1 - 52) = 2 powi (?e + 1)"
      using pow2_scale [of 52 "?e + 1"] by simp
    ultimately show ?thesis by (simp only: y rhe_of_int)
  next
    case False
    with n_hi have n_lt: "?n < 2 ^ 53" by simp
    have "(of_int (2 ^ 52) :: rat) \<le> of_int ?n" using n_lo by (simp only: of_int_le_iff)
    then have step1: "of_int (2 ^ 52) * ?u \<le> of_int ?n * ?u"
      using u by (intro mult_right_mono) simp_all
    have "2 powi ?e = of_int (2 ^ 52) * ?u"
      using pow2_scale [of 52 ?e] by simp
    also note step1
    also have "of_int ?n * ?u = fl x" by (simp only: flx)
    finally have c1: "2 powi ?e \<le> fl x" .
    have "(0::rat) < 2 powi ?e" by simp
    then have "0 < fl x" using c1 by (rule less_le_trans)
    then have abs: "\<bar>fl x\<bar> = fl x" by simp
    have "(of_int ?n :: rat) < of_int (2 ^ 53)" using n_lt by (simp only: of_int_less_iff)
    then have step2: "of_int ?n * ?u < of_int (2 ^ 53) * ?u"
      using u by (intro mult_strict_right_mono) simp_all
    note flx
    also note step2
    also have "of_int (2 ^ 53) * ?u = 2 powi (?e + 1)"
      using pow2_scale [of 53 "?e + 1"] by simp
    finally have c2: "fl x < 2 powi (?e + 1)" .
    have b1: "2 powi ?e \<le> \<bar>fl x\<bar>" using c1 by (simp only: abs)
    have b2: "\<bar>fl x\<bar> < 2 powi (?e + 1)" using c2 by (simp only: abs)
    have "fl (fl x) = of_int (round_half_even (fl x / ?u)) * ?u"
      using b1 b2 by (rule fl_eval)
    moreover have "fl x / ?u = of_int ?n" using flx u by simp
    ultimately show ?thesis using flx by (simp only: rhe_of_int)
  qed
qed

lemma round_half_even_near: "\<bar>of_int (round_half_even y) - y\<bar> \<le> 1 / 2"
proof -
  have "of_int \<lfloor>y\<rfloor> \<le> y" "y < of_int \<lfloor>y\<rfloor> + 1"
    by linarith+
  then show ?thesis
    by (auto simp: round_half_even_def Let_def)
qed


lemma fl_10: "fl 10 = 10"
  by code_simp

lemma fl_20: "fl 20 = 20"
  by code_simp

lemma fl_25: "fl 25 = 25"
  by code_simp

lemma fl_50: "fl 50 = 50"
  by code_simp

lemma fadd_float:
  assumes "fl r = r" and "0 \<le> r" and "0 < c"
  shows "r \<le> fadd r c" and "fl (fadd r c) = fadd r c" and "0 \<le> fadd r c"
proof -
  show "r \<le> fadd r c"
  proof (cases "r = 0")
    case True
    then show ?thesis using assms(3) by (simp add: fadd_def fl_nonneg)
  next
    case False
    with assms(2) have "0 < r" by simp
    moreover have "r \<le> r + c" using assms(3) by simp
    ultimately show ?thesis unfolding fadd_def by (rule fl_ge_repr [OF assms(1)])
  qed
  have "0 < r + c" using assms(2,3) by simp
  then show "fl (fadd r c) = fadd r c" unfolding fadd_def by (rule fl_idem)
  show "0 \<le> fadd r c" using assms(2,3) by (simp add: fadd_def fl_nonneg)
qed


lemma round2_of_int: "round2 (of_int n) = fl (of_int n)"
proof -
  have "(of_int n :: rat) * 100 = of_int (n * 100)" by simp
  then have "round_half_even (of_int n * 100) = n * 100"
    by (simp only: rhe_of_int)
  then show ?thesis by (simp add: round2_def)
qed

lemma round2_ge:
  assumes "fl (of_int n) = of_int n" and "0 < n" and "of_int n \<le> x"
  shows "of_int n \<le> round2 x"
proof -
  have "(of_int (n * 100) :: rat) \<le> x * 100" using assms(3) by simp
  then have "n * 100 \<le> round_half_even (x * 100)" by (rule rhe_ge)
  then have "(of_int (n * 100) :: rat) \<le> of_int (round_half_even (x * 100))"
    by (simp only: of_int_le_iff)
  then have "of_int n \<le> (of_int (round_half_even (x * 100)) :: rat) / 100" by simp
  moreover have "(0::rat) < of_int n" using assms(2) by simp
  ultimately show ?thesis unfolding round2_def by (intro fl_ge_repr assms(1))
qed

lemma round2_near: "\<bar>of_int (round_half_even (x * 100)) / 100 - x\<bar> \<le> 1 / 200"
proof -
  have "\<bar>of_int (round_half_even (x * 100)) - x * 100\<bar> \<le> 1 / 2"
    by (rule round_half_even_near)
  then show ?thesis
    by (simp add: abs_le_iff field_simps)
qed

section \<open>The operations keep the invariant\<close>

lemma pricing_table_lookup:
  "map_of pricing_table t = Some r \<Longrightarrow>
     0 < base r \<and> 0 \<le> hourly r \<and> fl (of_int (base r)) = of_int (base r)"
  by (auto simp: pricing_table_def fl_10 fl_20 fl_25 fl_50 split: if_splits)

lemma pricing_table_keys:
  "(map_of pricing_table t \<noteq> None) = (t \<in> {''bike'', ''car'', ''ev'', ''heavy''})"
  by (auto simp: pricing_table_def)

lemma ledger_inv_occupant:
  assumes "ledger_inv s" and "map_of (parking_slots s) slot = Some (Some v)"
  shows "\<exists>r. map_of (pricing s) (vtype v) = Some r"
proof -
  have "(slot, Some v) \<in> set (parking_slots s)"
    using assms(2) by (rule map_of_SomeD)
  then have "Some v \<in> set (map snd (parking_slots s))" by force
  then have "type_known (Some v)"
    using assms(1) by (auto simp: ledger_inv_def list_all_iff)
  then show ?thesis
    using assms(1) by (auto simp: type_known_def ledger_inv_def)
qed

lemma calculate_charges_occupied:
  assumes "map_of (parking_slots s) slot = Some (Some v)"
    and "map_of (pricing s) (vtype v) = Some r"
  shows "calculate_charges s slot now =
           Inr (round2 (charge_formula r (duration_hours now (entry_time v))), Some now)"
  using assms by (simp add: calculate_charges_def charge_formula_def Let_def)

lemma charge_formula_ge:
  assumes "0 \<le> hourly r" and "0 < base r" and "fl (of_int (base r)) = of_int (base r)"
  shows "of_int (base r) \<le> charge_formula r d"
proof (cases "d \<le> 2")
  case True
  then show ?thesis by (simp add: charge_formula_def)
next
  case False
  then have "0 \<le> fsub d 2" by (simp add: fsub_def fl_nonneg)
  then have "0 \<le> fmul (fsub d 2) (of_int (hourly r))"
    using assms(1) by (simp add: fmul_def fl_nonneg)
  then have "of_int (base r) \<le> of_int (base r) + fmul (fsub d 2) (of_int (hourly r))"
    by simp
  moreover have "(0::rat) < of_int (base r)" using assms(2) by simp
  ultimately have "of_int (base r)
      \<le> fadd (of_int (base r)) (fmul (fsub d 2) (of_int (hourly r)))"
    unfolding fadd_def by (intro fl_ge_repr assms(3))
  with False show ?thesis by (simp add: charge_formula_def)
qed

lemma ledger_inv_vehicle_entry:
  assumes "ledger_inv s" and "vehicle_entry s vno vt now = (msg, s')"
  shows "ledger_inv s'"
proof (cases "map_of (pricing s) vt = None")
  case True
  with assms show ?thesis by (simp add: vehicle_entry_def)
next
  case known: False
  show ?thesis
  proof (cases "first_free (parking_slots s)")
    case None
    with assms known show ?thesis by (simp add: vehicle_entry_def find_free_slot_def)
  next
    case (Some f)
    let ?v = "Some \<lparr>vehicle_no = vno, vtype = vt, entry_time = now\<rparr>"
    have s': "s' = s\<lparr>parking_slots := dict_set (parking_slots s) f ?v,
                      vehicles_today := vehicles_today s + 1\<rparr>"
      using assms(2) known Some by (simp add: vehicle_entry_def find_free_slot_def)
    have "f \<in> fst ` set (parking_slots s)"
      using first_free_mem [OF Some] by force
    then have keys: "map fst (dict_set (parking_slots s) f ?v) = map fst (parking_slots s)"
      by (rule keys_dict_set)
    have "type_known ?v"
      using known assms(1) by (simp add: type_known_def ledger_inv_def)
    then have "list_all type_known (map snd (dict_set (parking_slots s) f ?v))"
      using assms(1) by (simp add: values_dict_set ledger_inv_def)
    with keys assms(1) show ?thesis
      by (simp add: s' ledger_inv_def)
  qed
qed

lemma vehicle_exit_occupied:
  assumes "map_of (parking_slots s) slot = Some (Some v)"
    and "map_of (pricing s) (vtype v) = Some r"
  shows "vehicle_exit s slot now =
           Inr (Exiting (vehicle_no v) (vtype v) slot (entry_time v) now
                  (duration_hours now (entry_time v))
                  (round2 (charge_formula r (duration_hours now (entry_time v)))),
                s\<lparr>revenue_today :=
                     fadd (revenue_today s)
                       (round2 (charge_formula r (duration_hours now (entry_time v)))),
                  parking_slots := dict_set (parking_slots s) slot None\<rparr>)"
  using assms by (simp add: vehicle_exit_def calculate_charges_occupied [OF assms])

lemma vehicle_exit_empty:
  assumes "map_of (parking_slots s) slot = None \<or> map_of (parking_slots s) slot = Some None"
  shows "vehicle_exit s slot now = Inr (Slot_empty slot, s)"
  using assms by (auto simp: vehicle_exit_def)

lemma charge_nonneg:
  assumes "map_of pricing_table t = Some r"
  shows "of_int (base r) \<le> round2 (charge_formula r d)" and "0 < round2 (charge_formula r d)"
proof -
  have r: "0 < base r" "0 \<le> hourly r" "fl (of_int (base r)) = of_int (base r)"
    using pricing_table_lookup [OF assms] by simp_all
  have "of_int (base r) \<le> charge_formula r d"
    using r(2,1,3) by (rule charge_formula_ge)
  with r(3,1) show "of_int (base r) \<le> round2 (charge_formula r d)"
    by (rule round2_ge)
  moreover have "(0::rat) < of_int (base r)" using r(1) by simp
  ultimately show "0 < round2 (charge_formula r d)" by linarith
qed

lemma round2_base:
  "map_of pricing_table t = Some r \<Longrightarrow> round2 (of_int (base r)) = of_int (base r)"
  using pricing_table_lookup [of t r] by (simp add: round2_of_int)

lemma ledger_inv_vehicle_exit:
  assumes "ledger_inv s"
  shows "\<exists>msg s'. vehicle_exit s slot now = Inr (msg, s') \<and> ledger_inv s'
           \<and> revenue_today s' = foldl fadd (revenue_today s) (released_charges [Exit_out msg])
           \<and> (\<forall>c\<in>set (released_charges [Exit_out msg]). 0 < c)
           \<and> pricing s' = pricing s \<and> total_slots s' = total_slots s"
proof (cases "map_of (parking_slots s) slot")
  case None
  then show ?thesis using assms by (simp add: vehicle_exit_empty)
next
  case (Some x)
  show ?thesis
  proof (cases x)
    case None
    with Some show ?thesis using assms by (simp add: vehicle_exit_empty)
  next
    case (Some v)
    with \<open>map_of (parking_slots s) slot = Some x\<close>
    have occ: "map_of (parking_slots s) slot = Some (Some v)" by simp
    obtain r where r: "map_of (pricing s) (vtype v) = Some r"
      using ledger_inv_occupant [OF assms occ] by blast
    then have r': "map_of pricing_table (vtype v) = Some r"
      using assms by (simp add: ledger_inv_def)
    let ?c = "round2 (charge_formula r (duration_hours now (entry_time v)))"
    have pos: "0 < ?c" by (rule charge_nonneg(2) [OF r'])
    have "slot \<in> fst ` set (parking_slots s)"
      using map_of_SomeD [OF occ] by force
    then have keys: "map fst (dict_set (parking_slots s) slot None) = map fst (parking_slots s)"
      by (rule keys_dict_set)
    have "type_known None" by (simp add: type_known_def)
    then have "list_all type_known (map snd (dict_set (parking_slots s) slot None))"
      using assms by (simp add: values_dict_set ledger_inv_def)
    moreover have "0 \<le> fadd (revenue_today s) ?c"
      using assms pos by (simp add: fadd_def fl_nonneg ledger_inv_def)
    ultimately show ?thesis using keys assms pos
      by (simp add: vehicle_exit_occupied [OF occ r] ledger_inv_def)
  qed
qed

lemma daily_report_total:
  "daily_report s now =
     Inr (\<lparr>report_date = now, report_vehicles = vehicles_today s,
           report_revenue = revenue_today s,
           report_avg = (if vehicles_today s \<noteq> 0
                         then revenue_today s / of_int (vehicles_today s) else 0),
           report_peak = occupied_count s,
           report_total_slots = total_slots s\<rparr>,
          s\<lparr>daily_records := daily_records s @
              [\<lparr>report_date = now, report_vehicles = vehicles_today s,
                report_revenue = revenue_today s,
                report_avg = (if vehicles_today s \<noteq> 0
                              then revenue_today s / of_int (vehicles_today s) else 0),
                report_peak = occupied_count s,
                report_total_slots = total_slots s\<rparr>]\<rparr>)"
  by (simp add: daily_report_def truediv_def Let_def)

lemma step_inv:
  assumes "ledger_inv s"
  shows "\<exists>out s'. step s c = Inr (out, s') \<and> ledger_inv s'
           \<and> revenue_today s' = foldl fadd (revenue_today s) (released_charges [out])
           \<and> (\<forall>c\<in>set (released_charges [out]). 0 < c)
           \<and> pricing s' = pricing s \<and> total_slots s' = total_slots s"
proof (cases c)
  case (Vehicle_entry vno vt now)
  obtain msg s' where e: "vehicle_entry s vno vt now = (msg, s')"
    by (cases "vehicle_entry s vno vt now")
  then have "ledger_inv s'" using assms ledger_inv_vehicle_entry by blast
  moreover have "revenue_today s' = revenue_today s" "pricing s' = pricing s"
    "total_slots s' = total_slots s"
    using e by (auto simp: vehicle_entry_def split: if_splits option.splits)
  ultimately show ?thesis using Vehicle_entry e by simp
next
  case (Vehicle_exit slot now)
  obtain msg s' where x: "vehicle_exit s slot now = Inr (msg, s')" "ledger_inv s'"
    "revenue_today s' = foldl fadd (revenue_today s) (released_charges [Exit_out msg])"
    "\<forall>c\<in>set (released_charges [Exit_out msg]). 0 < c"
    "pricing s' = pricing s" "total_slots s' = total_slots s"
    using ledger_inv_vehicle_exit [OF assms] by blast
  then show ?thesis using Vehicle_exit by simp
next
  case (Calculate_charges slot now)
  have "\<exists>c t. calculate_charges s slot now = Inr (c, t)"
  proof (cases "map_of (parking_slots s) slot")
    case None
    then show ?thesis by (simp add: calculate_charges_def)
  next
    case (Some x)
    show ?thesis
    proof (cases x)
      case None
      with Some show ?thesis by (simp add: calculate_charges_def)
    next
      case (Some v)
      with \<open>map_of (parking_slots s) slot = Some x\<close>
      have occ: "map_of (parking_slots s) slot = Some (Some v)" by simp
      obtain r where r: "map_of (pricing s) (vtype v) = Some r"
        using ledger_inv_occupant [OF assms occ] by blast
      show ?thesis by (simp add: calculate_charges_occupied [OF occ r])
    qed
  qed
  then show ?thesis using Calculate_charges assms by auto
next
  case (Display_status clock)
  then show ?thesis using assms by simp
next
  case (Daily_report now)
  then show ?thesis using assms by (simp add: daily_report_total ledger_inv_def)
next
  case (Save_report now)
  then show ?thesis using assms by (simp add: daily_report_total ledger_inv_def)
qed

lemma vehicle_entry_parks:
  assumes "ledger_inv s" and "map_of (pricing s) vt \<noteq> None"
    and "map_of (parking_slots s) k = Some None"
  shows "\<exists>f. map_of (parking_slots s) f = Some None
           \<and> (\<forall>k'. map_of (parking_slots s) k' = Some None \<longrightarrow> f \<le> k')
           \<and> vehicle_entry s vno vt now =
               (Parked vno vt f now,
                s\<lparr>parking_slots :=
                     dict_set (parking_slots s) f
                       (Some \<lparr>vehicle_no = vno, vtype = vt, entry_time = now\<rparr>),
                  vehicles_today := vehicles_today s + 1\<rparr>)"
proof (cases "first_free (parking_slots s)")
  case None
  then show ?thesis using first_free_None assms(3) by blast
next
  case (Some f)
  have keys: "sorted_wrt (<) (map fst (parking_slots s))" "distinct (map fst (parking_slots s))"
    using ledger_inv_keys [OF assms(1)] by simp_all
  have "map_of (parking_slots s) f = Some None"
    using first_free_Some [OF keys(2) Some] .
  moreover have "\<forall>k'. map_of (parking_slots s) k' = Some None \<longrightarrow> f \<le> k'"
    using first_free_least [OF keys(1) Some] by blast
  moreover have "vehicle_entry s vno vt now =
               (Parked vno vt f now,
                s\<lparr>parking_slots :=
                     dict_set (parking_slots s) f
                       (Some \<lparr>vehicle_no = vno, vtype = vt, entry_time = now\<rparr>),
                  vehicles_today := vehicles_today s + 1\<rparr>)"
    using assms(2) Some by (simp add: vehicle_entry_def find_free_slot_def)
  ultimately show ?thesis by blast
qed

lemma vehicle_entry_full:
  assumes "ledger_inv s" and "map_of (pricing s) vt \<noteq> None"
    and "\<forall>k. map_of (parking_slots s) k \<noteq> Some None"
  shows "vehicle_entry s vno vt now = (Parking_full, s)"
proof (cases "first_free (parking_slots s)")
  case None
  with assms(2) show ?thesis by (simp add: vehicle_entry_def find_free_slot_def)
next
  case (Some f)
  have "distinct (map fst (parking_slots s))"
    using ledger_inv_keys [OF assms(1)] by simp
  then have "map_of (parking_slots s) f = Some None"
    using Some by (rule first_free_Some)
  with assms(3) show ?thesis by blast
qed

lemma ledger_inv_pricing:
  "ledger_inv s \<Longrightarrow>
     (map_of (pricing s) vt = None) = (vt \<notin> {''bike'', ''car'', ''ev'', ''heavy''})"
  using pricing_table_keys [of vt] by (auto simp: ledger_inv_def)

lemma occupied_keys_finite: "finite {k. \<exists>v. map_of d k = Some (Some v)}"
proof (rule finite_subset)
  show "{k. \<exists>v. map_of d k = Some (Some v)} \<subseteq> fst ` set d"
    by (auto dest!: map_of_SomeD intro: rev_image_eqI)
  show "finite (fst ` set d)" by simp
qed

lemma count_occupied:
  "distinct (map fst d) \<Longrightarrow>
     sum_list (map (\<lambda>v. 1) (filter (\<lambda>v. v \<noteq> None) (map snd d)))
       = int (card {k. \<exists>v. map_of d k = Some (Some v)})"
proof (induction d)
  case Nil
  then show ?case by simp
next
  case (Cons p d)
  obtain k x where p: "p = (k, x)" by (cases p)
  have fresh: "map_of d k = None"
    using Cons.prems p by (simp add: map_of_eq_None_iff)
  have IH: "sum_list (map (\<lambda>v. 1) (filter (\<lambda>v. v \<noteq> None) (map snd d)))
              = int (card {k. \<exists>v. map_of d k = Some (Some v)})"
    using Cons by simp
  let ?S = "{k'. \<exists>v. map_of d k' = Some (Some v)}"
  have notin: "k \<notin> ?S" using fresh by simp
  show ?case
  proof (cases x)
    case None
    have "{k'. \<exists>v. map_of (p # d) k' = Some (Some v)} = ?S"
      using p None fresh by auto
    then show ?thesis using p None IH by simp
  next
    case (Some v)
    have "{k'. \<exists>v. map_of (p # d) k' = Some (Some v)} = insert k ?S"
      using p Some by auto
    then have "card {k'. \<exists>v. map_of (p # d) k' = Some (Some v)} = Suc (card ?S)"
      using notin occupied_keys_finite [of d] by simp
    then show ?thesis using p Some IH by simp
  qed
qed

lemma released_charges_Cons:
  "released_charges (out # outs) = released_charges [out] @ released_charges outs"
proof (cases out)
  case (Exit_out msg)
  then show ?thesis by (cases msg) simp_all
qed simp_all

lemma run_inv:
  assumes "ledger_inv s"
  shows "\<exists>outs s'. run s ops = Inr (outs, s') \<and> ledger_inv s'
           \<and> revenue_today s' = foldl fadd (revenue_today s) (released_charges outs)
           \<and> (\<forall>c\<in>set (released_charges outs). 0 < c)
           \<and> pricing s' = pricing s \<and> total_slots s' = total_slots s"
  using assms
proof (induction ops arbitrary: s)
  case Nil
  then show ?case by simp
next
  case (Cons c ops)
  from step_inv [OF Cons.prems, of c]
  obtain out s1 where 1: "step s c = Inr (out, s1)" "ledger_inv s1"
    "revenue_today s1 = foldl fadd (revenue_today s) (released_charges [out])"
    "\<forall>c\<in>set (released_charges [out]). 0 < c"
    "pricing s1 = pricing s" "total_slots s1 = total_slots s"
    by blast
  from Cons.IH [OF 1(2)]
  obtain outs s2 where 2: "run s1 ops = Inr (outs, s2)" "ledger_inv s2"
    "revenue_today s2 = foldl fadd (revenue_today s1) (released_charges outs)"
    "\<forall>c\<in>set (released_charges outs). 0 < c"
    "pricing s2 = pricing s1" "total_slots s2 = total_slots s1"
    by blast
  have "run s (c # ops) = Inr (out # outs, s2)"
    using 1(1) 2(1) by simp
  moreover have "revenue_today s2 = foldl fadd (revenue_today s) (released_charges (out # outs))"
    using 1(3) 2(3) by (simp only: released_charges_Cons [of out outs] foldl_append)
  moreover have "\<forall>c\<in>set (released_charges (out # outs)). 0 < c"
    using 1(4) 2(4) by (auto simp only: released_charges_Cons [of out outs] set_append)
  ultimately show ?case using 2(2,5,6) 1(5,6) by simp
qed

lemma duration_negative:
  assumes "now < entry"
  shows "duration_hours now entry < 0"
proof -
  have "(of_int (now - entry) :: rat) < 0" using assms by simp
  then have "(of_int (now - entry) :: rat) / 1000000 < 0" by (simp add: divide_neg_pos)
  then have "total_seconds (now - entry) < 0" unfolding total_seconds_def by (rule fl_neg)
  then have "total_seconds (now - entry) / 3600 < 0" by (simp add: divide_neg_pos)
  then show ?thesis unfolding duration_hours_def fdiv_def by (rule fl_neg)
qed

section \<open>Facts about the example states\<close>

lemma lot_with_bike_eq:
  "lot_with_bike =
     \<lparr>total_slots = 2,
      parking_slots =
        [(1, Some \<lparr>vehicle_no = ''KA02'', vtype = ''bike'', entry_time = 0\<rparr>), (2, None)],
      revenue_today = 0, vehicles_today = 1, daily_records = [], pricing = pricing_table\<rparr>"
  by (simp add: lot_with_bike_def vehicle_entry_def SmartParkingSystem_def find_free_slot_def
      pricing_table_def upto.simps)

lemma lot_with_bike_inv: "ledger_inv lot_with_bike"
  unfolding lot_with_bike_def
  by (rule ledger_inv_vehicle_entry [OF ledger_inv_init prod.collapse [symmetric]])

lemma full_lot_eq:
  "full_lot =
     \<lparr>total_slots = 2,
      parking_slots =
        [(1, Some \<lparr>vehicle_no = ''KA02'', vtype = ''bike'', entry_time = 0\<rparr>),
         (2, Some \<lparr>vehicle_no = ''KA03'', vtype = ''car'', entry_time = 5\<rparr>)],
      revenue_today = 0, vehicles_today = 2, daily_records = [], pricing = pricing_table\<rparr>"
  by (simp add: full_lot_def lot_with_bike_eq vehicle_entry_def find_free_slot_def
      pricing_table_def)

lemma full_lot_inv: "ledger_inv full_lot"
  unfolding full_lot_def
  by (rule ledger_inv_vehicle_entry [OF lot_with_bike_inv prod.collapse [symmetric]])

lemma lot_after_exit_eq:
  "lot_after_exit =
     \<lparr>total_slots = 2,
      parking_slots =
        [(1, None), (2, Some \<lparr>vehicle_no = ''KA03'', vtype = ''car'', entry_time = 5\<rparr>)],
      revenue_today = 10, vehicles_today = 2, daily_records = [], pricing = pricing_table\<rparr>"
  by code_simp

lemma lot_after_exit_inv: "ledger_inv lot_after_exit"
  using ledger_inv_vehicle_exit [OF full_lot_inv, of 1 9]
  by (auto simp: lot_after_exit_def)

lemma heavy_lot_eq:
  "heavy_lot =
     \<lparr>total_slots = 2,
      parking_slots =
        [(1, None),
         (2, Some \<lparr>vehicle_no = ''KA11'', vtype = ''heavy'', entry_time = 3600000000\<rparr>)],
      revenue_today = fl (5001 / 100), vehicles_today = 2, daily_records = [],
      pricing = pricing_table\<rparr>"
  by code_simp

lemma heavy_lot_inv: "ledger_inv heavy_lot"
  using run_inv [OF ledger_inv_init, of 2
      "[Vehicle_entry ''KA10'' ''heavy'' 0, Vehicle_entry ''KA11'' ''heavy'' 3600000000,
        Vehicle_exit 1 7201440000]"]
  by (auto simp: heavy_lot_def)

lemma heavy_lot_float: "fl (revenue_today heavy_lot) = revenue_today heavy_lot"
proof -
  have "fl (fl (5001 / 100)) = fl (5001 / 100)" by (rule fl_idem) simp
  then show ?thesis by (simp add: heavy_lot_eq)
qed

section \<open>Charges\<close>

text \<open>
  Claim C1, as stated: the amount is the value of base + (duration - 2) * hourly, rounded to
  two decimal places. For a bike leaving after 2 hours and 39.6 seconds that value is
  10.055, which rounds to 10.06 (ties to even, and also ties away from zero), but
  \<open>calculate_charges\<close> returns the double nearest to 10.05: the float operations leave a
  value just below the tie.
\<close>

theorem calculate_charges_exact_counterexample:
  "calculate_charges lot_with_bike 1 7239600000 = Inr (fl (1005 / 100), Some 7239600000)
   \<and> (10 + (7239600000 / 1000000 / 3600 - 2) * 5 :: rat) = 10055 / 1000
   \<and> of_int (round_half_even ((10 + (7239600000 / 1000000 / 3600 - 2) * 5) * 100)) / 100
       = (1006 / 100 :: rat)
   \<and> of_int \<lfloor>(10 + (7239600000 / 1000000 / 3600 - 2) * 5) * 100 + (1 / 2 :: rat)\<rfloor> / 100
       = (1006 / 100 :: rat)
   \<and> fl (1005 / 100) < 10051 / 1000
   \<and> fl (1005 / 100) \<noteq> fl (1006 / 100)"
  by code_simp

text \<open>
  Claim C1, amended. On an occupied slot \<open>calculate_charges\<close> returns the base charge of the
  vehicle's type when the duration is at most 2 hours. Otherwise it computes base +
  (duration - 2) * hourly in float arithmetic, every operation rounded to the nearest
  double, and rounds that double to two decimal places: the amount is the double nearest
  to a whole number of hundredths that is at most half a hundredth away from the computed
  double. The duration itself is a float, the microseconds divided by \<open>10**6\<close> and by 3600.
\<close>

theorem calculate_charges_rule:
  assumes "ledger_inv s" and "map_of (parking_slots s) slot = Some (Some v)"
  shows "\<exists>r amount. map_of (pricing s) (vtype v) = Some r
           \<and> calculate_charges s slot now = Inr (amount, Some now)
           \<and> amount =
               round2 (if duration_hours now (entry_time v) \<le> 2 then of_int (base r)
                       else fadd (of_int (base r))
                              (fmul (fsub (duration_hours now (entry_time v)) 2)
                                 (of_int (hourly r))))
           \<and> (duration_hours now (entry_time v) \<le> 2 \<longrightarrow> amount = of_int (base r))
           \<and> (2 < duration_hours now (entry_time v) \<longrightarrow>
                 (\<exists>k::int. amount = fl (of_int k / 100)
                    \<and> \<bar>of_int k / 100
                        - fadd (of_int (base r))
                            (fmul (fsub (duration_hours now (entry_time v)) 2)
                               (of_int (hourly r)))\<bar> \<le> 1 / 200))"
proof -
  let ?d = "duration_hours now (entry_time v)"
  obtain r where r: "map_of (pricing s) (vtype v) = Some r"
    using ledger_inv_occupant [OF assms] by blast
  then have r': "map_of pricing_table (vtype v) = Some r"
    using assms(1) by (simp add: ledger_inv_def)
  let ?x = "fadd (of_int (base r)) (fmul (fsub ?d 2) (of_int (hourly r)))"
  let ?a = "round2 (charge_formula r ?d)"
  have 1: "calculate_charges s slot now = Inr (?a, Some now)"
    by (rule calculate_charges_occupied [OF assms(2) r])
  have 2: "?a = round2 (if ?d \<le> 2 then of_int (base r) else ?x)"
    by (simp only: charge_formula_def)
  have 3: "?d \<le> 2 \<longrightarrow> ?a = of_int (base r)"
    by (simp add: charge_formula_def round2_base [OF r'])
  have 4: "2 < ?d \<longrightarrow> (\<exists>k::int. ?a = fl (of_int k / 100) \<and> \<bar>of_int k / 100 - ?x\<bar> \<le> 1 / 200)"
  proof
    assume "2 < ?d"
    then have x: "charge_formula r ?d = ?x" by (simp add: charge_formula_def)
    have "?a = fl (of_int (round_half_even (?x * 100)) / 100)"
      by (simp only: x round2_def)
    moreover have "\<bar>of_int (round_half_even (?x * 100)) / 100 - ?x\<bar> \<le> 1 / 200"
      by (rule round2_near)
    ultimately show "\<exists>k::int. ?a = fl (of_int k / 100) \<and> \<bar>of_int k / 100 - ?x\<bar> \<le> 1 / 200"
      by blast
  qed
  from r 1 2 3 4 show ?thesis by blast
qed

theorem calculate_charges_rule_witness:
  "ledger_inv lot_with_bike
   \<and> map_of (parking_slots lot_with_bike) 1
       = Some (Some \<lparr>vehicle_no = ''KA02'', vtype = ''bike'', entry_time = 0\<rparr>)
   \<and> calculate_charges lot_with_bike 1 10800000000 = Inr (15, Some 10800000000)
   \<and> calculate_charges lot_with_bike 1 3600000000 = Inr (10, Some 3600000000)
   \<and> calculate_charges lot_with_bike 1 12000000000 = Inr (fl (1667 / 100), Some 12000000000)"
proof -
  let ?v = "\<lparr>vehicle_no = ''KA02'', vtype = ''bike'', entry_time = 0\<rparr>"
  have h: "map_of (parking_slots lot_with_bike) 1 = Some (Some ?v)"
    by (simp add: lot_with_bike_eq)
  have r: "map_of (pricing lot_with_bike) ''bike'' = Some \<lparr>base = 10, hourly = 5\<rparr>"
    by (simp add: lot_with_bike_eq pricing_table_def)
  have e1: "round2 (if duration_hours 10800000000 0 \<le> 2 then 10
                    else fadd 10 (fmul (fsub (duration_hours 10800000000 0) 2) 5)) = 15"
    by code_simp
  have e2: "round2 (if duration_hours 3600000000 0 \<le> 2 then 10
                    else fadd 10 (fmul (fsub (duration_hours 3600000000 0) 2) 5)) = 10"
    by code_simp
  have e3: "round2 (if duration_hours 12000000000 0 \<le> 2 then 10
                    else fadd 10 (fmul (fsub (duration_hours 12000000000 0) 2) 5))
              = fl (1667 / 100)"
    by code_simp
  have a: "calculate_charges lot_with_bike 1 10800000000 = Inr (15, Some 10800000000)"
    using calculate_charges_rule [OF lot_with_bike_inv h, of 10800000000] r e1
    by (auto simp del: One_nat_def)
  have b: "calculate_charges lot_with_bike 1 3600000000 = Inr (10, Some 3600000000)"
    using calculate_charges_rule [OF lot_with_bike_inv h, of 3600000000] r e2
    by auto
  have c: "calculate_charges lot_with_bike 1 12000000000 = Inr (fl (1667 / 100), Some 12000000000)"
    using calculate_charges_rule [OF lot_with_bike_inv h, of 12000000000] r e3
    by auto
  from lot_with_bike_inv h a b c show ?thesis by (intro conjI)
qed




text \<open>
  Claim C10, as stated: every release raises the revenue by at least the base charge. With
  a revenue of 50.01 (a heavy vehicle that left after 2 hours and 1.44 seconds), the
  release of a second heavy vehicle after 1.5 hours charges the base 50, and the float sum
  of 50.01 and 50 is less than their exact sum: the revenue grows by less than 50.
\<close>

theorem revenue_step_counterexample:
  "ledger_inv heavy_lot
   \<and> calculate_charges heavy_lot 2 9000000000 = Inr (50, Some 9000000000)
   \<and> map_of (pricing heavy_lot) ''heavy'' = Some \<lparr>base = 50, hourly = 25\<rparr>
   \<and> revenue_today (snd (projr (vehicle_exit heavy_lot 2 9000000000)))
       < revenue_today heavy_lot + 50"
proof -
  have "calculate_charges heavy_lot 2 9000000000 = Inr (50, Some 9000000000)
   \<and> map_of (pricing heavy_lot) ''heavy'' = Some \<lparr>base = 50, hourly = 25\<rparr>
   \<and> revenue_today (snd (projr (vehicle_exit heavy_lot 2 9000000000)))
       < revenue_today heavy_lot + 50"
    by code_simp
  with heavy_lot_inv show ?thesis by simp
qed

text \<open>
  Claim C10, amended. On an occupied slot the charge is at least the base charge of the
  vehicle's type, which is positive; this includes an exit time before the entry time,
  where the duration is negative and the charge is the base charge. A release sets the
  revenue to the float sum of the revenue and the charge, which is not below the revenue
  before; the rounding of that sum can leave the growth below the base charge.
\<close>

theorem charge_at_least_base:
  assumes "ledger_inv s" and "fl (revenue_today s) = revenue_today s"
    and "map_of (parking_slots s) slot = Some (Some v)"
  shows "\<exists>r amount. map_of (pricing s) (vtype v) = Some r
           \<and> calculate_charges s slot now = Inr (amount, Some now)
           \<and> 0 < base r \<and> of_int (base r) \<le> amount \<and> 0 < amount
           \<and> (now < entry_time v \<longrightarrow> duration_hours now (entry_time v) < 0
                                      \<and> amount = of_int (base r))
           \<and> (\<exists>msg s'. vehicle_exit s slot now = Inr (msg, s')
                 \<and> revenue_today s' = fadd (revenue_today s) amount
                 \<and> revenue_today s \<le> revenue_today s')"
proof -
  let ?d = "duration_hours now (entry_time v)"
  obtain r where r: "map_of (pricing s) (vtype v) = Some r"
    using ledger_inv_occupant [OF assms(1,3)] by blast
  then have r': "map_of pricing_table (vtype v) = Some r"
    using assms(1) by (simp add: ledger_inv_def)
  let ?a = "round2 (charge_formula r ?d)"
  have 1: "calculate_charges s slot now = Inr (?a, Some now)"
    by (rule calculate_charges_occupied [OF assms(3) r])
  have 2: "0 < base r"
    using pricing_table_lookup [OF r'] by simp
  have 3: "of_int (base r) \<le> ?a" "0 < ?a"
    using charge_nonneg [OF r'] by simp_all
  have 4: "now < entry_time v \<longrightarrow> ?d < 0 \<and> ?a = of_int (base r)"
  proof
    assume "now < entry_time v"
    then have neg: "?d < 0" by (rule duration_negative)
    then have "charge_formula r ?d = of_int (base r)"
      by (simp add: charge_formula_def)
    with neg show "?d < 0 \<and> ?a = of_int (base r)"
      by (simp add: round2_base [OF r'])
  qed
  have nonneg: "0 \<le> revenue_today s" using assms(1) by (simp add: ledger_inv_def)
  have "revenue_today s \<le> fadd (revenue_today s) ?a"
    using assms(2) nonneg 3(2) by (rule fadd_float(1))
  then have 5: "\<exists>msg s'. vehicle_exit s slot now = Inr (msg, s')
             \<and> revenue_today s' = fadd (revenue_today s) ?a
             \<and> revenue_today s \<le> revenue_today s'"
    by (simp add: vehicle_exit_occupied [OF assms(3) r])
  from r 1 2 3 4 5 show ?thesis by blast
qed

theorem charge_at_least_base_witness:
  "ledger_inv heavy_lot
   \<and> fl (revenue_today heavy_lot) = revenue_today heavy_lot
   \<and> map_of (parking_slots heavy_lot) 2
       = Some (Some \<lparr>vehicle_no = ''KA11'', vtype = ''heavy'', entry_time = 3600000000\<rparr>)
   \<and> calculate_charges heavy_lot 2 1800000000 = Inr (50, Some 1800000000)
   \<and> map_sum id (revenue_today \<circ> snd) (vehicle_exit heavy_lot 2 1800000000)
       = Inr (fadd (fl (5001 / 100)) 50)"
proof -
  let ?v = "\<lparr>vehicle_no = ''KA11'', vtype = ''heavy'', entry_time = 3600000000\<rparr>"
  have h: "map_of (parking_slots heavy_lot) 2 = Some (Some ?v)"
    by (simp add: heavy_lot_eq)
  have r: "map_of (pricing heavy_lot) ''heavy'' = Some \<lparr>base = 50, hourly = 25\<rparr>"
    by (simp add: heavy_lot_eq pricing_table_def)
  have z: "revenue_today heavy_lot = fl (5001 / 100)"
    by (simp add: heavy_lot_eq)
  have "calculate_charges heavy_lot 2 1800000000 = Inr (50, Some 1800000000)
        \<and> map_sum id (revenue_today \<circ> snd) (vehicle_exit heavy_lot 2 1800000000)
            = Inr (fadd (fl (5001 / 100)) 50)"
    using charge_at_least_base [OF heavy_lot_inv heavy_lot_float h, of 1800000000] r z
    by auto
  with heavy_lot_inv heavy_lot_float h show ?thesis by (intro conjI) simp_all
qed

section \<open>Releasing an empty slot\<close>

text \<open>
  Claim C3. \<open>vehicle_exit\<close> on a slot that is free (never occupied or released) or outside
  \<open>1, ..., total_slots\<close> returns the message ``Slot ... is empty or invalid.'' and leaves the
  whole state as it was.
\<close>

theorem vehicle_exit_empty_slot:
  assumes "ledger_inv s"
    and "slot < 1 \<or> total_slots s < slot \<or> map_of (parking_slots s) slot = Some None"
  shows "vehicle_exit s slot now = Inr (Slot_empty slot, s)"
proof -
  have "map_of (parking_slots s) slot = None \<or> map_of (parking_slots s) slot = Some None"
    using assms ledger_inv_dom [OF assms(1), of slot] by auto
  then show ?thesis by (rule vehicle_exit_empty)
qed

theorem vehicle_exit_empty_slot_witness:
  "ledger_inv lot_with_bike
   \<and> map_of (parking_slots lot_with_bike) 2 = Some None
   \<and> vehicle_exit lot_with_bike 2 50 = Inr (Slot_empty 2, lot_with_bike)
   \<and> vehicle_exit lot_with_bike 0 50 = Inr (Slot_empty 0, lot_with_bike)
   \<and> vehicle_exit lot_with_bike 3 50 = Inr (Slot_empty 3, lot_with_bike)"
proof -
  have free: "map_of (parking_slots lot_with_bike) 2 = Some None"
    by (simp add: lot_with_bike_eq)
  have total: "total_slots lot_with_bike = 2"
    by (simp add: lot_with_bike_eq)
  have "vehicle_exit lot_with_bike 2 50 = Inr (Slot_empty 2, lot_with_bike)"
    using vehicle_exit_empty_slot [OF lot_with_bike_inv, of 2 50] free by simp
  moreover have "vehicle_exit lot_with_bike 0 50 = Inr (Slot_empty 0, lot_with_bike)"
    using vehicle_exit_empty_slot [OF lot_with_bike_inv, of 0 50] by simp
  moreover have "vehicle_exit lot_with_bike 3 50 = Inr (Slot_empty 3, lot_with_bike)"
    using vehicle_exit_empty_slot [OF lot_with_bike_inv, of 3 50] total by simp
  ultimately show ?thesis using lot_with_bike_inv free by blast
qed

section \<open>The daily report\<close>



section \<open>Entry, and entry after an exit\<close>

text \<open>
  Claim C2. \<open>vehicle_entry\<close> returns the invalid-type message exactly when the type is
  not a key of the pricing dictionary (bike, car, ev, heavy); otherwise it returns the
  parking-full message exactly when no slot is free; otherwise it parks the vehicle in the
  free slot of lowest number and adds one to \<open>vehicles_today\<close>. The two failures change
  nothing.
\<close>

theorem vehicle_entry_outcome:
  assumes "ledger_inv s"
  shows "(map_of (pricing s) vt = None) = (vt \<notin> {''bike'', ''car'', ''ev'', ''heavy''})
    \<and> (fst (vehicle_entry s vno vt now) = Invalid_vehicle_type vt) = (map_of (pricing s) vt = None)
    \<and> (fst (vehicle_entry s vno vt now) = Parking_full) =
        (map_of (pricing s) vt \<noteq> None \<and> (\<forall>k. map_of (parking_slots s) k \<noteq> Some None))
    \<and> (map_of (pricing s) vt = None \<longrightarrow>
          vehicle_entry s vno vt now = (Invalid_vehicle_type vt, s))
    \<and> (map_of (pricing s) vt \<noteq> None \<and> (\<forall>k. map_of (parking_slots s) k \<noteq> Some None) \<longrightarrow>
          vehicle_entry s vno vt now = (Parking_full, s))
    \<and> (map_of (pricing s) vt \<noteq> None \<and> (\<exists>k. map_of (parking_slots s) k = Some None) \<longrightarrow>
          (\<exists>f. map_of (parking_slots s) f = Some None
             \<and> (\<forall>k. map_of (parking_slots s) k = Some None \<longrightarrow> f \<le> k)
             \<and> fst (vehicle_entry s vno vt now) = Parked vno vt f now
             \<and> map_of (parking_slots (snd (vehicle_entry s vno vt now))) =
                 (map_of (parking_slots s))
                   (f \<mapsto> Some \<lparr>vehicle_no = vno, vtype = vt, entry_time = now\<rparr>)
             \<and> vehicles_today (snd (vehicle_entry s vno vt now)) = vehicles_today s + 1
             \<and> snd (vehicle_entry s vno vt now) =
                 s\<lparr>parking_slots := parking_slots (snd (vehicle_entry s vno vt now)),
                   vehicles_today := vehicles_today s + 1\<rparr>))"
proof -
  let ?e = "vehicle_entry s vno vt now"
  have invalid: "?e = (Invalid_vehicle_type vt, s)" if "map_of (pricing s) vt = None"
    using that by (simp add: vehicle_entry_def)
  have full: "?e = (Parking_full, s)"
    if "map_of (pricing s) vt \<noteq> None" "\<forall>k. map_of (parking_slots s) k \<noteq> Some None"
    using that by (rule vehicle_entry_full [OF assms])
  have parks: "\<exists>f. map_of (parking_slots s) f = Some None
             \<and> (\<forall>k. map_of (parking_slots s) k = Some None \<longrightarrow> f \<le> k)
             \<and> fst ?e = Parked vno vt f now
             \<and> map_of (parking_slots (snd ?e)) =
                 (map_of (parking_slots s))
                   (f \<mapsto> Some \<lparr>vehicle_no = vno, vtype = vt, entry_time = now\<rparr>)
             \<and> vehicles_today (snd ?e) = vehicles_today s + 1
             \<and> snd ?e = s\<lparr>parking_slots := parking_slots (snd ?e),
                           vehicles_today := vehicles_today s + 1\<rparr>"
    if known: "map_of (pricing s) vt \<noteq> None"
      and free: "\<exists>k. map_of (parking_slots s) k = Some None"
  proof -
    obtain k where "map_of (parking_slots s) k = Some None" using free by blast
    from vehicle_entry_parks [OF assms known this, of vno now]
    obtain f where f: "map_of (parking_slots s) f = Some None"
      "\<forall>k'. map_of (parking_slots s) k' = Some None \<longrightarrow> f \<le> k'"
      "?e = (Parked vno vt f now,
             s\<lparr>parking_slots :=
                  dict_set (parking_slots s) f
                    (Some \<lparr>vehicle_no = vno, vtype = vt, entry_time = now\<rparr>),
               vehicles_today := vehicles_today s + 1\<rparr>)"
      by blast
    show ?thesis
      using f(1,2) by (intro exI [of _ f]) (simp add: f(3) map_of_dict_set)
  qed
  have iff_invalid: "(fst ?e = Invalid_vehicle_type vt) = (map_of (pricing s) vt = None)"
  proof (cases "map_of (pricing s) vt = None")
    case True
    then show ?thesis using invalid by simp
  next
    case False
    then show ?thesis
      using full parks by (cases "\<exists>k. map_of (parking_slots s) k = Some None") auto
  qed
  have iff_full: "(fst ?e = Parking_full) =
        (map_of (pricing s) vt \<noteq> None \<and> (\<forall>k. map_of (parking_slots s) k \<noteq> Some None))"
  proof (cases "map_of (pricing s) vt = None")
    case True
    then show ?thesis using invalid by simp
  next
    case False
    then show ?thesis
      using full parks by (cases "\<exists>k. map_of (parking_slots s) k = Some None") auto
  qed
  have invalid': "map_of (pricing s) vt = None \<longrightarrow> ?e = (Invalid_vehicle_type vt, s)"
    using invalid by blast
  have full': "map_of (pricing s) vt \<noteq> None \<and> (\<forall>k. map_of (parking_slots s) k \<noteq> Some None)
                 \<longrightarrow> ?e = (Parking_full, s)"
    using full by blast
  note keys = ledger_inv_pricing [OF assms, of vt]
  show ?thesis
  proof (intro conjI)
    show "map_of (pricing s) vt \<noteq> None \<and> (\<exists>k. map_of (parking_slots s) k = Some None) \<longrightarrow>
          (\<exists>f. map_of (parking_slots s) f = Some None
             \<and> (\<forall>k. map_of (parking_slots s) k = Some None \<longrightarrow> f \<le> k)
             \<and> fst ?e = Parked vno vt f now
             \<and> map_of (parking_slots (snd ?e)) =
                 (map_of (parking_slots s))
                   (f \<mapsto> Some \<lparr>vehicle_no = vno, vtype = vt, entry_time = now\<rparr>)
             \<and> vehicles_today (snd ?e) = vehicles_today s + 1
             \<and> snd ?e = s\<lparr>parking_slots := parking_slots (snd ?e),
                           vehicles_today := vehicles_today s + 1\<rparr>)"
    proof
      assume "map_of (pricing s) vt \<noteq> None \<and> (\<exists>k. map_of (parking_slots s) k = Some None)"
      then show "\<exists>f. map_of (parking_slots s) f = Some None
             \<and> (\<forall>k. map_of (parking_slots s) k = Some None \<longrightarrow> f \<le> k)
             \<and> fst ?e = Parked vno vt f now
             \<and> map_of (parking_slots (snd ?e)) =
                 (map_of (parking_slots s))
                   (f \<mapsto> Some \<lparr>vehicle_no = vno, vtype = vt, entry_time = now\<rparr>)
             \<and> vehicles_today (snd ?e) = vehicles_today s + 1
             \<and> snd ?e = s\<lparr>parking_slots := parking_slots (snd ?e),
                           vehicles_today := vehicles_today s + 1\<rparr>"
        using parks by (elim conjE) (rule parks)
    qed
  qed (rule keys iff_invalid iff_full invalid' full')+
qed


theorem vehicle_entry_outcome_witness:
  "ledger_inv lot_with_bike \<and> ledger_inv full_lot
   \<and> vehicle_entry lot_with_bike ''KA09'' ''truck'' 7
       = (Invalid_vehicle_type ''truck'', lot_with_bike)
   \<and> fst (vehicle_entry lot_with_bike ''KA03'' ''car'' 5) = Parked ''KA03'' ''car'' 2 5
   \<and> vehicles_today (snd (vehicle_entry lot_with_bike ''KA03'' ''car'' 5)) = 2
   \<and> vehicle_entry full_lot ''KA04'' ''car'' 9 = (Parking_full, full_lot)"
proof -
  have truck: "map_of (pricing lot_with_bike) ''truck'' = None"
    by (simp add: lot_with_bike_eq pricing_table_def)
  have car: "map_of (pricing lot_with_bike) ''car'' \<noteq> None"
    "map_of (pricing full_lot) ''car'' \<noteq> None"
    by (simp_all add: lot_with_bike_eq full_lot_eq pricing_table_def)
  have free: "map_of (parking_slots lot_with_bike) k = Some None \<longleftrightarrow> k = 2" for k
    by (simp add: lot_with_bike_eq)
  have none: "\<forall>k. map_of (parking_slots full_lot) k \<noteq> Some None"
    by (simp add: full_lot_eq)
  have count: "vehicles_today lot_with_bike = 1"
    by (simp add: lot_with_bike_eq)
  note truck_case = vehicle_entry_outcome [OF lot_with_bike_inv, of "''truck''" "''KA09''" 7]
  note car_case = vehicle_entry_outcome [OF lot_with_bike_inv, of "''car''" "''KA03''" 5]
  note full_case = vehicle_entry_outcome [OF full_lot_inv, of "''car''" "''KA04''" 9]
  have a: "vehicle_entry lot_with_bike ''KA09'' ''truck'' 7
             = (Invalid_vehicle_type ''truck'', lot_with_bike)"
    using truck_case [THEN conjunct2, THEN conjunct2, THEN conjunct2, THEN conjunct1]
      truck by (rule mp)
  have "\<exists>k. map_of (parking_slots lot_with_bike) k = Some None"
    using free by blast
  with car(1) have "map_of (pricing lot_with_bike) ''car'' \<noteq> None
      \<and> (\<exists>k. map_of (parking_slots lot_with_bike) k = Some None)" ..
  with car_case [THEN conjunct2, THEN conjunct2, THEN conjunct2, THEN conjunct2,
      THEN conjunct2]
  have "\<exists>f. map_of (parking_slots lot_with_bike) f = Some None
          \<and> (\<forall>k. map_of (parking_slots lot_with_bike) k = Some None \<longrightarrow> f \<le> k)
          \<and> fst (vehicle_entry lot_with_bike ''KA03'' ''car'' 5) = Parked ''KA03'' ''car'' f 5
          \<and> map_of (parking_slots (snd (vehicle_entry lot_with_bike ''KA03'' ''car'' 5))) =
              (map_of (parking_slots lot_with_bike))
                (f \<mapsto> Some \<lparr>vehicle_no = ''KA03'', vtype = ''car'', entry_time = 5\<rparr>)
          \<and> vehicles_today (snd (vehicle_entry lot_with_bike ''KA03'' ''car'' 5))
              = vehicles_today lot_with_bike + 1
          \<and> snd (vehicle_entry lot_with_bike ''KA03'' ''car'' 5) =
              lot_with_bike
                \<lparr>parking_slots :=
                   parking_slots (snd (vehicle_entry lot_with_bike ''KA03'' ''car'' 5)),
                 vehicles_today := vehicles_today lot_with_bike + 1\<rparr>"
    by (rule mp)
  then obtain f where f: "map_of (parking_slots lot_with_bike) f = Some None"
    "fst (vehicle_entry lot_with_bike ''KA03'' ''car'' 5) = Parked ''KA03'' ''car'' f 5"
    "vehicles_today (snd (vehicle_entry lot_with_bike ''KA03'' ''car'' 5))
       = vehicles_today lot_with_bike + 1"
    by (elim exE conjE)
  from f(1) have "f = 2" by (simp only: free)
  with f(2,3) count
  have b: "fst (vehicle_entry lot_with_bike ''KA03'' ''car'' 5) = Parked ''KA03'' ''car'' 2 5"
    "vehicles_today (snd (vehicle_entry lot_with_bike ''KA03'' ''car'' 5)) = 2"
    by simp_all
  from car(2) none have "map_of (pricing full_lot) ''car'' \<noteq> None
      \<and> (\<forall>k. map_of (parking_slots full_lot) k \<noteq> Some None)" ..
  with full_case [THEN conjunct2, THEN conjunct2, THEN conjunct2, THEN conjunct2,
      THEN conjunct1]
  have c: "vehicle_entry full_lot ''KA04'' ''car'' 9 = (Parking_full, full_lot)"
    by (rule mp)
  from lot_with_bike_inv full_lot_inv a b c show ?thesis by (intro conjI)
qed

text \<open>
  Claim C5. After \<open>vehicle_exit\<close> on an occupied slot the slot is free, and a following
  \<open>vehicle_entry\<close> with a valid type succeeds: the vehicle is parked in a slot not above
  the released one, and in the released slot itself when no slot below it was free.
\<close>

theorem slot_free_after_exit:
  assumes "ledger_inv s" and "map_of (parking_slots s) slot = Some (Some v)"
    and "map_of (pricing s) vt \<noteq> None"
  shows "\<exists>msg s'. vehicle_exit s slot now = Inr (msg, s')
           \<and> map_of (parking_slots s') slot = Some None
           \<and> (\<exists>f s''. vehicle_entry s' vno vt now' = (Parked vno vt f now', s'')
                 \<and> map_of (parking_slots s') f = Some None
                 \<and> f \<le> slot
                 \<and> ((\<forall>k<slot. map_of (parking_slots s) k \<noteq> Some None) \<longrightarrow> f = slot)
                 \<and> map_of (parking_slots s'') f
                     = Some (Some \<lparr>vehicle_no = vno, vtype = vt, entry_time = now'\<rparr>))"
proof -
  obtain msg s' where x: "vehicle_exit s slot now = Inr (msg, s')" "ledger_inv s'"
    "pricing s' = pricing s"
    using ledger_inv_vehicle_exit [OF assms(1), of slot now] by blast
  obtain r where r: "map_of (pricing s) (vtype v) = Some r"
    using ledger_inv_occupant [OF assms(1,2)] by blast
  have slots: "map_of (parking_slots s') = (map_of (parking_slots s))(slot \<mapsto> None)"
    using x(1) by (auto simp: vehicle_exit_occupied [OF assms(2) r] map_of_dict_set)
  then have free: "map_of (parking_slots s') slot = Some None" by simp
  have known: "map_of (pricing s') vt \<noteq> None" using assms(3) x(3) by simp
  let ?v = "Some \<lparr>vehicle_no = vno, vtype = vt, entry_time = now'\<rparr>"
  from vehicle_entry_parks [OF x(2) known free, of vno now']
  obtain f where f: "map_of (parking_slots s') f = Some None"
    "\<forall>k'. map_of (parking_slots s') k' = Some None \<longrightarrow> f \<le> k'"
    "vehicle_entry s' vno vt now' =
       (Parked vno vt f now',
        s'\<lparr>parking_slots := dict_set (parking_slots s') f ?v,
           vehicles_today := vehicles_today s' + 1\<rparr>)"
    by blast
  have le: "f \<le> slot" using f(2) free by blast
  have eq: "f = slot" if "\<forall>k<slot. map_of (parking_slots s) k \<noteq> Some None"
  proof (rule ccontr)
    assume "f \<noteq> slot"
    with le have "f < slot" by simp
    moreover from \<open>f \<noteq> slot\<close> f(1) have "map_of (parking_slots s) f = Some None"
      by (simp add: slots)
    ultimately show False using that by blast
  qed
  have "map_of (parking_slots (s'\<lparr>parking_slots := dict_set (parking_slots s') f ?v,
           vehicles_today := vehicles_today s' + 1\<rparr>)) f = Some ?v"
    by (simp add: map_of_dict_set)
  moreover have "(\<forall>k<slot. map_of (parking_slots s) k \<noteq> Some None) \<longrightarrow> f = slot"
    using eq by blast
  ultimately have "\<exists>f s''. vehicle_entry s' vno vt now' = (Parked vno vt f now', s'')
                 \<and> map_of (parking_slots s') f = Some None
                 \<and> f \<le> slot
                 \<and> ((\<forall>k<slot. map_of (parking_slots s) k \<noteq> Some None) \<longrightarrow> f = slot)
                 \<and> map_of (parking_slots s'') f = Some ?v"
    using f(1,3) le by (intro exI conjI) assumption+
  with x(1) free show ?thesis
    by (rule_tac x = msg in exI, rule_tac x = s' in exI) simp
qed

theorem slot_free_after_exit_witness:
  "ledger_inv full_lot
   \<and> map_of (parking_slots full_lot) 2
       = Some (Some \<lparr>vehicle_no = ''KA03'', vtype = ''car'', entry_time = 5\<rparr>)
   \<and> map_of (pricing full_lot) ''ev'' \<noteq> None
   \<and> map_sum id (\<lambda>(msg, s'). map_of (parking_slots s') 2) (vehicle_exit full_lot 2 9)
       = Inr (Some None)
   \<and> map_sum id (\<lambda>(msg, s'). fst (vehicle_entry s' ''KA05'' ''ev'' 11)) (vehicle_exit full_lot 2 9)
       = Inr (Parked ''KA05'' ''ev'' 2 11)"
proof -
  let ?v = "\<lparr>vehicle_no = ''KA03'', vtype = ''car'', entry_time = 5\<rparr>"
  have occ: "map_of (parking_slots full_lot) 2 = Some (Some ?v)"
    by (simp add: full_lot_eq)
  have ev: "map_of (pricing full_lot) ''ev'' \<noteq> None"
    by (simp add: full_lot_eq pricing_table_def)
  have below: "\<forall>k<2. map_of (parking_slots full_lot) k \<noteq> Some None"
    by (simp add: full_lot_eq)
  from slot_free_after_exit [OF full_lot_inv occ ev, of 9 "''KA05''" 11] below
  obtain msg s' s'' where
    "vehicle_exit full_lot 2 9 = Inr (msg, s')"
    "map_of (parking_slots s') 2 = Some None"
    "vehicle_entry s' ''KA05'' ''ev'' 11 = (Parked ''KA05'' ''ev'' 2 11, s'')"
    by blast
  then show ?thesis using full_lot_inv occ ev by simp
qed

text \<open>
  Claim C8. The peak occupancy in the report of \<open>daily_report\<close> is the number of slots
  that hold a vehicle in the state in which the report is made; no maximum over earlier
  states is kept.
\<close>

theorem daily_report_peak:
  assumes "ledger_inv s"
  shows "\<exists>rep s'. daily_report s now = Inr (rep, s')
           \<and> report_peak rep = int (card {k. \<exists>v. map_of (parking_slots s) k = Some (Some v)})"
proof -
  have "distinct (map fst (parking_slots s))"
    using ledger_inv_keys [OF assms] by simp
  then have "occupied_count s = int (card {k. \<exists>v. map_of (parking_slots s) k = Some (Some v)})"
    unfolding occupied_count_def by (rule count_occupied)
  then show ?thesis by (simp add: daily_report_total)
qed

theorem daily_report_peak_witness:
  "ledger_inv lot_after_exit
   \<and> map_sum id (report_peak \<circ> fst) (daily_report full_lot 9) = Inr 2
   \<and> map_sum id (report_peak \<circ> fst) (daily_report lot_after_exit 9) = Inr 1
   \<and> card {k. \<exists>v. map_of (parking_slots lot_after_exit) k = Some (Some v)} = 1"
proof -
  have two: "map_sum id (report_peak \<circ> fst) (daily_report full_lot 9) = Inr 2"
    by (simp add: daily_report_total occupied_count_def full_lot_eq)
  have one: "map_sum id (report_peak \<circ> fst) (daily_report lot_after_exit 9) = Inr 1"
    by (simp add: daily_report_total occupied_count_def lot_after_exit_eq)
  have "card {k. \<exists>v. map_of (parking_slots lot_after_exit) k = Some (Some v)} = 1"
    using daily_report_peak [OF lot_after_exit_inv, of 9] one by auto
  with lot_after_exit_inv two one show ?thesis by (intro conjI)
qed

section \<open>Revenue over a run\<close>




section \<open>The pricing table\<close>

text \<open>
  Claim C9. The pricing dictionary set by the constructor has exactly the four keys bike,
  car, ev and heavy, with base and hourly rates 10/5, 20/10, 25/12 and 50/25.
\<close>

theorem pricing_at_construction:
  "dom (map_of (pricing (SmartParkingSystem n))) = {''bike'', ''car'', ''ev'', ''heavy''}
   \<and> map_of (pricing (SmartParkingSystem n)) ''bike'' = Some \<lparr>base = 10, hourly = 5\<rparr>
   \<and> map_of (pricing (SmartParkingSystem n)) ''car'' = Some \<lparr>base = 20, hourly = 10\<rparr>
   \<and> map_of (pricing (SmartParkingSystem n)) ''ev'' = Some \<lparr>base = 25, hourly = 12\<rparr>
   \<and> map_of (pricing (SmartParkingSystem n)) ''heavy'' = Some \<lparr>base = 50, hourly = 25\<rparr>"
  by (auto simp: SmartParkingSystem_def pricing_table_def split: if_splits)

end
